theory Spec2Isabelle
  imports Complex_Main "HOL-Library.Multiset" "HOL-Library.Product_Lexorder"
begin

section \<open>Numbers\<close>

text \<open>
  The rank of an item is a TypeScript \<^verbatim>\<open>number\<close>: a finite value, one of the two
  infinities, or NaN. The finite values are kept as rationals. The only arithmetic the
  program performs on ranks is the subtraction inside the comparator, and the sort reads
  nothing of its result but whether it is NaN and whether it is below zero; both are
  the same for the rounded difference of two doubles and for the exact difference.
\<close>

datatype number = NaN | NegInfinity | Num rat | Infinity

text \<open>The operator \<^verbatim>\<open>a - b\<close> on numbers.\<close>

fun num_sub :: "number \<Rightarrow> number \<Rightarrow> number" where
  "num_sub NaN b = NaN"
| "num_sub a NaN = NaN"
| "num_sub Infinity Infinity = NaN"
| "num_sub NegInfinity NegInfinity = NaN"
| "num_sub Infinity b = Infinity"
| "num_sub NegInfinity b = NegInfinity"
| "num_sub (Num x) Infinity = NegInfinity"
| "num_sub (Num x) NegInfinity = Infinity"
| "num_sub (Num x) (Num y) = Num (x - y)"

text \<open>The tests \<^verbatim>\<open>v < 0\<close>, \<^verbatim>\<open>a < b\<close> and \<^verbatim>\<open>a <= b\<close>; each is false as soon as NaN is involved.\<close>

fun lt_zero :: "number \<Rightarrow> bool" where
  "lt_zero NaN = False"
| "lt_zero NegInfinity = True"
| "lt_zero (Num x) = (x < 0)"
| "lt_zero Infinity = False"

fun num_lt :: "number \<Rightarrow> number \<Rightarrow> bool" where
  "num_lt NaN b = False"
| "num_lt a NaN = False"
| "num_lt a NegInfinity = False"
| "num_lt NegInfinity b = True"
| "num_lt Infinity b = False"
| "num_lt (Num x) Infinity = True"
| "num_lt (Num x) (Num y) = (x < y)"

fun num_le :: "number \<Rightarrow> number \<Rightarrow> bool" where
  "num_le NaN b = False"
| "num_le a NaN = False"
| "num_le NegInfinity b = True"
| "num_le a Infinity = True"
| "num_le Infinity b = False"
| "num_le (Num x) NegInfinity = False"
| "num_le (Num x) (Num y) = (x \<le> y)"

section \<open>The built-in array sort\<close>

text \<open>
  \<^verbatim>\<open>Array.prototype.sort\<close> belongs to the language, not to the repository. ECMAScript
  fixes how the sort reads its comparator: the result is made a number, and NaN counts
  as \<open>+0\<close>, that is, as "equal" (\<open>sort_compare\<close>). It requires the sort to be stable, and
  it leaves the order implementation-defined when the comparator is not a consistent
  comparison of the elements. The algorithm is the engine's. The model follows the sort
  of V8, the engine of Node and Chrome, as it runs on an array of fewer than 64
  elements. The elements of the array are objects, never \<^verbatim>\<open>undefined\<close>, so every
  comparison goes through the comparator.
\<close>

definition sort_compare :: "('a \<Rightarrow> 'a \<Rightarrow> number) \<Rightarrow> 'a \<Rightarrow> 'a \<Rightarrow> number" where
  "sort_compare comparefn x y = (let v = comparefn x y in if v = NaN then Num 0 else v)"

text \<open>
  First the run at the start of the array is found. The order of the first two elements
  decides whether the run is descending (the second strictly before the first) or
  ascending; the run goes on as long as each element compared with the one before it
  keeps that order, strictly in a descending run. \<open>run_length\<close> counts the elements
  that continue the run behind \<open>previous\<close>. A descending run is reversed in place.
\<close>

fun run_length :: "('a \<Rightarrow> 'a \<Rightarrow> number) \<Rightarrow> bool \<Rightarrow> 'a \<Rightarrow> 'a list \<Rightarrow> nat" where
  "run_length comparefn descending previous [] = 0"
| "run_length comparefn descending previous (current # rest) =
     (let order = sort_compare comparefn current previous in
      if descending
      then (if \<not> lt_zero order then 0 else Suc (run_length comparefn descending current rest))
      else (if lt_zero order then 0 else Suc (run_length comparefn descending current rest)))"

fun count_and_make_run :: "('a \<Rightarrow> 'a \<Rightarrow> number) \<Rightarrow> 'a list \<Rightarrow> 'a list \<times> nat" where
  "count_and_make_run comparefn (x0 # x1 # rest) =
     (let descending = lt_zero (sort_compare comparefn x1 x0);
          n = 2 + run_length comparefn descending x1 rest
      in if descending
         then (rev (take n (x0 # x1 # rest)) @ drop n (x0 # x1 # rest), n)
         else (x0 # x1 # rest, n))"
| "count_and_make_run comparefn xs = (xs, length xs)"

text \<open>
  Then every element behind the run is inserted into the sorted front of the array.
  Its position is found by a binary search between \<open>left\<close> and \<open>right\<close>: the pivot
  goes to the left of the middle element if the comparator puts it strictly before that
  element, and to its right otherwise. The search only reads positions below
  \<open>right\<close>, which is at most the length of the front.
\<close>

function binary_search ::
  "('a \<Rightarrow> 'a \<Rightarrow> number) \<Rightarrow> 'a \<Rightarrow> 'a list \<Rightarrow> nat \<Rightarrow> nat \<Rightarrow> nat" where
  "binary_search comparefn pivot xs left right =
     (if left < right
      then (let mid = left + (right - left) div 2 in
            if lt_zero (sort_compare comparefn pivot (xs ! mid))
            then binary_search comparefn pivot xs left mid
            else binary_search comparefn pivot xs (mid + 1) right)
      else left)"
  by pat_completeness auto
termination
  by (relation "measure (\<lambda>(comparefn, pivot, xs, left, right). right - left)") auto

declare binary_search.simps [simp del]

fun binary_insertion_sort :: "('a \<Rightarrow> 'a \<Rightarrow> number) \<Rightarrow> 'a list \<Rightarrow> 'a list \<Rightarrow> 'a list" where
  "binary_insertion_sort comparefn front [] = front"
| "binary_insertion_sort comparefn front (pivot # rest) =
     (let left = binary_search comparefn pivot front 0 (length front)
      in binary_insertion_sort comparefn (take left front @ pivot # drop left front) rest)"

text \<open>
  An array of fewer than two elements is left as it is. V8 cuts an array of 64 elements
  or more into several such runs and merges them; the model sorts every array by the
  one run and the insertions. With a consistent comparator every stable sort returns
  the same array, so the difference can show on ranks with NaN only.
\<close>

definition array_sort :: "('a \<Rightarrow> 'a \<Rightarrow> number) \<Rightarrow> 'a list \<Rightarrow> 'a list" where
  "array_sort comparefn xs =
     (if length xs < 2 then xs
      else (case count_and_make_run comparefn xs of
              (ys, n) \<Rightarrow> binary_insertion_sort comparefn (take n ys) (drop n ys)))"

section \<open>The ranker of generics.ts\<close>

text \<open>
  \<^verbatim>\<open>interface Rank<RankItem> { item: RankItem; rank: number }\<close>
\<close>

record 'a Rank =
  item :: 'a
  rank :: number

text \<open>
  \<^verbatim>\<open>
  function ranker<RankItem>(items: RankItem[], rank: (v: RankItem) => number): RankItem[] {
    const ranks: Rank<RankItem>[] = items.map((item) => ({ item, rank: rank(item) }));
    ranks.sort((a, b) => a.rank - b.rank);
    return ranks.map((rank) => rank.item);
  }
  \<close>
  The parameter \<^verbatim>\<open>rank\<close> is written \<open>rk\<close>, the name \<open>rank\<close> being the field.
  The function is given three times, each time with what the properties at hand need:
  \<open>ranker\<close> on the values, for a rank function that only computes; \<open>ranker_eff\<close> for a
  rank function with state and exceptions; \<open>ranker_heap\<close> on the addresses of the arrays.
  The three agree: \<open>ranker_eff\<close> on a rank function without effects returns what
  \<open>ranker\<close> returns, and the array that \<open>ranker_heap\<close> returns holds what \<open>ranker\<close>
  returns on the content of the input array.
\<close>

definition decorate :: "('a \<Rightarrow> number) \<Rightarrow> 'a \<Rightarrow> 'a Rank" where
  "decorate rk v = \<lparr>item = v, rank = rk v\<rparr>"

definition by_rank :: "'a Rank \<Rightarrow> 'a Rank \<Rightarrow> number" where
  "by_rank a b = num_sub (rank a) (rank b)"

definition ranker :: "'a list \<Rightarrow> ('a \<Rightarrow> number) \<Rightarrow> 'a list" where
  "ranker items rk = map item (array_sort by_rank (map (decorate rk) items))"

text \<open>
  The two arrays the script ranks (generics.ts, lines 40 to 74).
\<close>

record Pokemon =
  name :: string
  hp :: number

definition pokemon :: "Pokemon list" where
  "pokemon = [\<lparr>name = ''Bulbasaur'', hp = Num 20\<rparr>, \<lparr>name = ''Megaasaur'', hp = Num 5\<rparr>]"

record Human =
  name :: string
  age :: number

definition human :: "Human list" where
  "human = [\<lparr>name = ''Duy'', age = Num 25\<rparr>, \<lparr>name = ''TA'', age = Num 50\<rparr>]"

text \<open>
  Whether \<open>a\<close> stands somewhere before \<open>b\<close> in a sequence: at the first position
  holding \<open>a\<close> with a \<open>b\<close> behind it.
\<close>

fun appears_before :: "'a \<Rightarrow> 'a \<Rightarrow> 'a list \<Rightarrow> bool" where
  "appears_before a b [] = False"
| "appears_before a b (x # xs) = ((x = a \<and> b \<in> set xs) \<or> appears_before a b xs)"

text \<open>
  The order of two entries by their ranks, as \<^verbatim>\<open>a.rank <= b.rank\<close> and as
  \<^verbatim>\<open>a.rank > b.rank\<close>.
\<close>

definition rank_le :: "'a Rank \<Rightarrow> 'a Rank \<Rightarrow> bool" where
  "rank_le a b = num_le (rank a) (rank b)"

definition rank_gt :: "'a Rank \<Rightarrow> 'a Rank \<Rightarrow> bool" where
  "rank_gt a b = num_lt (rank b) (rank a)"

text \<open>
  The numbers other than NaN are linearly ordered; \<open>order_key\<close> places them in a
  linear order of HOL, the lexicographic one on pairs, so that the library's stable
  \<open>sort_key\<close> can be compared with the program.
\<close>

fun order_key :: "number \<Rightarrow> int \<times> rat" where
  "order_key NaN = (2, 0)"
| "order_key NegInfinity = (- 1, 0)"
| "order_key (Num x) = (0, x)"
| "order_key Infinity = (1, 0)"

text \<open>
  Two inputs of tagged scores, ranked by the score: \<open>ties\<close> has two items of equal rank
  and ordinary numbers only, \<open>tied\<close> has items of equal rank and two items whose rank is
  NaN.
\<close>

definition ties :: "(string \<times> number) list" where
  "ties = [(''c'', Num 2), (''a'', Num 1), (''b'', Num 1)]"

definition tied :: "(string \<times> number) list" where
  "tied = [(''a'', Num 1), (''b'', Num 0), (''c'', NaN), (''d'', Num 0),
           (''e'', Num 0), (''f'', Num 0), (''g'', NaN), (''h'', Num 0)]"

subsection \<open>A rank function with effects\<close>

text \<open>
  The caller's \<^verbatim>\<open>rank\<close> is arbitrary code: it may read and write state of its own and it
  may throw. Such a function takes the state \<open>'s\<close> and returns the new one, together
  with the number it returns (\<open>Inr\<close>) or the exception it throws (\<open>Inl\<close>).
  \<^verbatim>\<open>Array.prototype.map\<close> calls its callback on the elements from left to right and stops
  at the first exception, which leaves nothing of the array under construction.
\<close>

fun array_map_eff ::
  "('a \<Rightarrow> 's \<Rightarrow> ('e + 'b) \<times> 's) \<Rightarrow> 'a list \<Rightarrow> 's \<Rightarrow> ('e + 'b list) \<times> 's" where
  "array_map_eff f [] s = (Inr [], s)"
| "array_map_eff f (x # xs) s =
     (case f x s of
        (Inl e, s1) \<Rightarrow> (Inl e, s1)
      | (Inr y, s1) \<Rightarrow>
          (case array_map_eff f xs s1 of
             (Inl e, s2) \<Rightarrow> (Inl e, s2)
           | (Inr ys, s2) \<Rightarrow> (Inr (y # ys), s2)))"

definition decorate_eff ::
  "('a \<Rightarrow> 's \<Rightarrow> ('e + number) \<times> 's) \<Rightarrow> 'a \<Rightarrow> 's \<Rightarrow> ('e + 'a Rank) \<times> 's" where
  "decorate_eff rk v s =
     (case rk v s of
        (Inl e, s1) \<Rightarrow> (Inl e, s1)
      | (Inr r, s1) \<Rightarrow> (Inr \<lparr>item = v, rank = r\<rparr>, s1))"

definition ranker_eff ::
  "'a list \<Rightarrow> ('a \<Rightarrow> 's \<Rightarrow> ('e + number) \<times> 's) \<Rightarrow> 's \<Rightarrow> ('e + 'a list) \<times> 's" where
  "ranker_eff items rk s =
     (case array_map_eff (decorate_eff rk) items s of
        (Inl e, s1) \<Rightarrow> (Inl e, s1)
      | (Inr ranks, s1) \<Rightarrow> (Inr (map item (array_sort by_rank ranks)), s1))"

text \<open>A rank function without effects, as an effectful one.\<close>

definition pure_rank :: "('a \<Rightarrow> number) \<Rightarrow> 'a \<Rightarrow> 's \<Rightarrow> ('e + number) \<times> 's" where
  "pure_rank rk v s = (Inr (rk v), s)"

text \<open>
  The recording projection: it behaves as \<open>rk\<close> and appends every argument it is called
  with to the list of calls kept beside the state of \<open>rk\<close>.
\<close>

definition recorded ::
  "('a \<Rightarrow> 's \<Rightarrow> ('e + number) \<times> 's) \<Rightarrow> 'a \<Rightarrow> 'a list \<times> 's \<Rightarrow> ('e + number) \<times> ('a list \<times> 's)" where
  "recorded rk v = (\<lambda>(calls, s). case rk v s of (r, s1) \<Rightarrow> (r, (calls @ [v], s1)))"

text \<open>
  A rank function with both effects: it counts its calls in the state and throws on the
  item \<open>2\<close>.
\<close>

definition failing_rank :: "nat \<Rightarrow> nat \<Rightarrow> (string + number) \<times> nat" where
  "failing_rank v n =
     (if v = 2 then (Inl ''boom'', Suc n) else (Inr (Num (of_nat v)), Suc n))"

subsection \<open>The arrays as objects of a heap\<close>

text \<open>
  Arrays are objects: a variable holds the address of an array, \<^verbatim>\<open>map\<close> allocates a new
  array and \<^verbatim>\<open>sort\<close> writes into the array it is called on. The heap is the list of the
  arrays allocated so far, an address is a position in it, and an allocation appends.
  The program has arrays of items and arrays of \<^verbatim>\<open>Rank\<close> entries. The rank function here
  is one without effects: what a rank function of the caller does to the heap is the
  caller's doing.
\<close>

datatype 'a array_obj = Items "'a list" | Ranks "'a Rank list"

type_synonym 'a heap = "'a array_obj list"

definition alloc :: "'a array_obj \<Rightarrow> 'a heap \<Rightarrow> nat \<times> 'a heap" where
  "alloc arr h = (length h, h @ [arr])"

text \<open>\<^verbatim>\<open>items.map((item) => ({ item, rank: rank(item) }))\<close>\<close>

definition map_decorate :: "nat \<Rightarrow> ('a \<Rightarrow> number) \<Rightarrow> 'a heap \<Rightarrow> (nat \<times> 'a heap) option" where
  "map_decorate a rk h =
     (if a < length h
      then (case h ! a of
              Items xs \<Rightarrow> Some (alloc (Ranks (map (decorate rk) xs)) h)
            | Ranks es \<Rightarrow> None)
      else None)"

text \<open>\<^verbatim>\<open>ranks.sort((a, b) => a.rank - b.rank)\<close>\<close>

definition sort_in_place :: "nat \<Rightarrow> 'a heap \<Rightarrow> 'a heap option" where
  "sort_in_place a h =
     (if a < length h
      then (case h ! a of
              Ranks es \<Rightarrow> Some (h[a := Ranks (array_sort by_rank es)])
            | Items xs \<Rightarrow> None)
      else None)"

text \<open>\<^verbatim>\<open>ranks.map((rank) => rank.item)\<close>\<close>

definition map_item :: "nat \<Rightarrow> 'a heap \<Rightarrow> (nat \<times> 'a heap) option" where
  "map_item a h =
     (if a < length h
      then (case h ! a of
              Ranks es \<Rightarrow> Some (alloc (Items (map item es)) h)
            | Items xs \<Rightarrow> None)
      else None)"

definition ranker_heap :: "nat \<Rightarrow> ('a \<Rightarrow> number) \<Rightarrow> 'a heap \<Rightarrow> (nat \<times> 'a heap) option" where
  "ranker_heap items rk h =
     (case map_decorate items rk h of
        None \<Rightarrow> None
      | Some (ranks, h1) \<Rightarrow>
          (case sort_in_place ranks h1 of
             None \<Rightarrow> None
           | Some h2 \<Rightarrow> map_item ranks h2))"

section \<open>The state cell of generics.ts\<close>

text \<open>
  \<^verbatim>\<open>
  function simpleState<T>(initial: T): [() => T, (v: T) => void] {
    let val: T = initial;
    return [() => val, (v: T) => { val = v; }];
  }
  \<close>
  Every call creates a variable \<^verbatim>\<open>val\<close> of its own, which the two closures capture.
  The store is the list of the variables created so far; a call appends one, and the
  closures it returns read and write the position of that variable.
\<close>

type_synonym 'a store = "'a list"

definition simpleState ::
  "'a \<Rightarrow> 'a store \<Rightarrow> (('a store \<Rightarrow> 'a) \<times> ('a \<Rightarrow> 'a store \<Rightarrow> 'a store)) \<times> 'a store" where
  "simpleState initial st =
     (let cell = length st
      in ((\<lambda>s. s ! cell, \<lambda>v s. s[cell := v]), st @ [initial]))"

section \<open>The pluck of abstract.ts\<close>

text \<open>
  \<^verbatim>\<open>
  function pluck<DataType, KeyType extends keyof DataType>(
    items: DataType[], key: KeyType): DataType[KeyType][] {
    return items.map((item) => item[key]);
  }
  \<close>
  An item is an object: a finite map from property names to values. Reading a property
  that the object does not have gives \<^verbatim>\<open>undefined\<close>.
\<close>

datatype prop_value = Undefined | Str string | Number number

type_synonym obj = "string \<rightharpoonup> prop_value"

definition get_prop :: "obj \<Rightarrow> string \<Rightarrow> prop_value" where
  "get_prop it key = (case it key of None \<Rightarrow> Undefined | Some v \<Rightarrow> v)"

definition pluck :: "obj list \<Rightarrow> string \<Rightarrow> prop_value list" where
  "pluck items key = map (\<lambda>it. get_prop it key) items"

text \<open>
  \<^verbatim>\<open>
  const dogs: Dog1[] = [{ name: 'Mimi', age: 12, title: 'sdad' }, { name: 'LG', age: 13 }];
  \<close>
\<close>

definition dogs :: "obj list" where
  "dogs =
     [[''name'' \<mapsto> Str ''Mimi'', ''age'' \<mapsto> Number (Num 12), ''title'' \<mapsto> Str ''sdad''],
      [''name'' \<mapsto> Str ''LG'', ''age'' \<mapsto> Number (Num 13)]]"

section \<open>The comparator on ordinary numbers\<close>

text \<open>
  On ranks that are not NaN the comparator of \<open>ranker\<close> decides the order of the
  numbers, and that order is total and transitive.
\<close>

lemma lt_zero_by_rank:
  "rank a \<noteq> NaN \<Longrightarrow> rank b \<noteq> NaN \<Longrightarrow>
     lt_zero (sort_compare by_rank a b) = num_lt (rank a) (rank b)"
  by (cases "rank a"; cases "rank b") (simp_all add: sort_compare_def by_rank_def)

lemma not_lt_zero_if_le:
  "num_le (rank x) (rank y) \<Longrightarrow> \<not> lt_zero (sort_compare by_rank y x)"
  by (cases "rank x"; cases "rank y") (simp_all add: sort_compare_def by_rank_def)

lemma num_le_total: "a \<noteq> NaN \<Longrightarrow> b \<noteq> NaN \<Longrightarrow> \<not> num_lt b a \<Longrightarrow> num_le a b"
  by (cases a; cases b) simp_all

lemma num_lt_imp_le: "num_lt a b \<Longrightarrow> num_le a b"
  by (cases a; cases b) simp_all

lemma num_le_trans: "num_le a b \<Longrightarrow> num_le b c \<Longrightarrow> num_le a c"
  by (cases a; cases b; cases c) simp_all

lemma num_lt_le_neq: "num_lt a b \<Longrightarrow> num_le b c \<Longrightarrow> c \<noteq> a"
  by (cases a; cases b; cases c) simp_all

lemma num_lt_trans: "num_lt a b \<Longrightarrow> num_lt b c \<Longrightarrow> num_lt a c"
  by (cases a; cases b; cases c) simp_all

lemma num_lt_neq: "num_lt a b \<Longrightarrow> a \<noteq> b"
  by (cases a; cases b) simp_all

lemma num_lt_le_trans: "num_lt a b \<Longrightarrow> num_le b c \<Longrightarrow> num_lt a c"
  by (cases a; cases b; cases c) simp_all

lemma order_key_le:
  "a \<noteq> NaN \<Longrightarrow> b \<noteq> NaN \<Longrightarrow> num_le a b \<longleftrightarrow> order_key a \<le> order_key b"
  by (cases a; cases b) simp_all

lemma order_key_inj: "order_key a = order_key b \<longleftrightarrow> a = b"
  by (cases a; cases b) simp_all

section \<open>The sort moves elements only\<close>

lemma mset_take_drop: "mset (take n xs) + mset (drop n xs) = mset xs"
  by (metis append_take_drop_id mset_append)

lemma mset_binary_insertion_sort:
  "mset (binary_insertion_sort c front rest) = mset front + mset rest"
proof (induction rest arbitrary: front)
  case Nil
  then show ?case by simp
next
  case (Cons p rest)
  let ?k = "binary_search c p front 0 (length front)"
  have "mset (take ?k front @ p # drop ?k front) = mset front + {#p#}"
    by (simp add: mset_take_drop)
  then show ?case using Cons.IH by (simp add: Let_def)
qed

lemma mset_make_run: "mset (fst (count_and_make_run c xs)) = mset xs"
  by (cases "(c, xs)" rule: count_and_make_run.cases) (simp_all add: Let_def mset_take_drop)

lemma mset_array_sort: "mset (array_sort c xs) = mset xs"
proof (cases "length xs < 2")
  case True
  then show ?thesis by (simp add: array_sort_def)
next
  case False
  obtain ys n where r: "count_and_make_run c xs = (ys, n)" by (cases "count_and_make_run c xs")
  have "mset (array_sort c xs) = mset (take n ys) + mset (drop n ys)"
    using False r by (simp add: array_sort_def mset_binary_insertion_sort)
  also have "\<dots> = mset (take n ys @ drop n ys)" by (simp only: mset_append)
  also have "\<dots> = mset xs" using mset_make_run [of c xs] r by simp
  finally show ?thesis .
qed

lemma set_array_sort: "set (array_sort c xs) = set xs"
  using mset_array_sort [of c xs] by (metis set_mset_mset)

section \<open>The sort on ordinary ranks\<close>

text \<open>
  On ranks without NaN the run found at the start is ascending, or strictly descending
  and then strictly ascending once reversed.
\<close>

lemma run_length_le: "run_length c d prev xs \<le> length xs"
  by (induction xs arbitrary: prev) (auto simp: Let_def le_SucI)

lemma ascending_run:
  "\<forall>e \<in> set (prev # xs). rank e \<noteq> NaN \<Longrightarrow>
   sorted_wrt rank_le (prev # take (run_length by_rank False prev xs) (xs :: 'a Rank list))"
proof (induction xs arbitrary: prev)
  case Nil
  then show ?case by simp
next
  case (Cons x xs)
  show ?case
  proof (cases "lt_zero (sort_compare by_rank x prev)")
    case True
    then show ?thesis by (simp add: Let_def)
  next
    case False
    then have px: "num_le (rank prev) (rank x)"
      using Cons.prems by (simp add: lt_zero_by_rank num_le_total)
    have ih: "sorted_wrt rank_le (x # take (run_length by_rank False x xs) xs)"
      using Cons.prems by (intro Cons.IH) simp
    then have "\<forall>e \<in> set (take (run_length by_rank False x xs) xs). rank_le prev e"
      using px by (auto simp: rank_le_def intro: num_le_trans)
    moreover have "rank_le prev x" using px by (simp add: rank_le_def)
    ultimately show ?thesis using False ih by (simp add: Let_def)
  qed
qed

lemma descending_run:
  "\<forall>e \<in> set (prev # xs). rank e \<noteq> NaN \<Longrightarrow>
   sorted_wrt rank_gt (prev # take (run_length by_rank True prev xs) (xs :: 'a Rank list))"
proof (induction xs arbitrary: prev)
  case Nil
  then show ?case by simp
next
  case (Cons x xs)
  show ?case
  proof (cases "lt_zero (sort_compare by_rank x prev)")
    case False
    then show ?thesis by (simp add: Let_def)
  next
    case True
    then have px: "num_lt (rank x) (rank prev)"
      using Cons.prems by (simp add: lt_zero_by_rank)
    have ih: "sorted_wrt rank_gt (x # take (run_length by_rank True x xs) xs)"
      using Cons.prems by (intro Cons.IH) simp
    then have "\<forall>e \<in> set (take (run_length by_rank True x xs) xs). rank_gt prev e"
      using px by (auto simp: rank_gt_def intro: num_lt_trans)
    moreover have "rank_gt prev x" using px by (simp add: rank_gt_def)
    ultimately show ?thesis using True ih by (simp add: Let_def)
  qed
qed

lemma rev_descending: "sorted_wrt rank_gt xs \<Longrightarrow> sorted_wrt rank_le (rev xs)"
  by (induction xs) (auto simp: sorted_wrt_append rank_gt_def rank_le_def num_lt_imp_le)

lemma filter_rev_descending:
  "sorted_wrt rank_gt xs \<Longrightarrow> filter (\<lambda>e. rank e = k) (rev xs) = filter (\<lambda>e. rank e = k) xs"
proof (induction xs)
  case Nil
  then show ?case by simp
next
  case (Cons x xs)
  have "rank x = k \<Longrightarrow> filter (\<lambda>e. rank e = k) xs = []"
    using Cons.prems by (auto simp: filter_empty_conv rank_gt_def dest: num_lt_neq)
  then show ?case using Cons by (cases "rank x = k") auto
qed


text \<open>
  In a sorted front without NaN the binary search stops at the position behind every
  element that is at most the pivot and before every element strictly above it.
\<close>

lemma binary_search_split:
  "sorted_wrt rank_le (xs :: 'a Rank list) \<Longrightarrow> \<forall>e \<in> set xs. rank e \<noteq> NaN \<Longrightarrow>
     rank p \<noteq> NaN \<Longrightarrow> left \<le> right \<Longrightarrow> right \<le> length xs \<Longrightarrow>
     \<forall>i<left. num_le (rank (xs ! i)) (rank p) \<Longrightarrow>
     \<forall>i. right \<le> i \<and> i < length xs \<longrightarrow> num_lt (rank p) (rank (xs ! i)) \<Longrightarrow>
     binary_search by_rank p xs left right \<le> length xs \<and>
     (\<forall>i<binary_search by_rank p xs left right. num_le (rank (xs ! i)) (rank p)) \<and>
     (\<forall>i. binary_search by_rank p xs left right \<le> i \<and> i < length xs
          \<longrightarrow> num_lt (rank p) (rank (xs ! i)))"
proof (induction "by_rank :: 'a Rank \<Rightarrow> 'a Rank \<Rightarrow> number" p xs left right
    rule: binary_search.induct)
  case (1 p xs left right)
  note sorted = "1.prems"(1) and nn = "1.prems"(2) and np = "1.prems"(3)
  show ?case
  proof (cases "left < right")
    case False
    then have "left = right" using "1.prems" by simp
    moreover have "binary_search by_rank p xs left right = left"
      using False by (subst binary_search.simps) simp
    ultimately show ?thesis using "1.prems" by simp
  next
    case True
    define mid where "mid = left + (right - left) div 2"
    have mid: "left \<le> mid" "mid < right" using True by (simp_all add: mid_def)
    then have ml: "mid < length xs" using "1.prems" by simp
    then have nm: "rank (xs ! mid) \<noteq> NaN" using nn by simp
    show ?thesis
    proof (cases "lt_zero (sort_compare by_rank p (xs ! mid))")
      case lt: True
      then have pm: "num_lt (rank p) (rank (xs ! mid))"
        using np nm by (simp add: lt_zero_by_rank)
      have hi: "\<forall>i. mid \<le> i \<and> i < length xs \<longrightarrow> num_lt (rank p) (rank (xs ! i))"
      proof (intro allI impI)
        fix i assume i: "mid \<le> i \<and> i < length xs"
        show "num_lt (rank p) (rank (xs ! i))"
        proof (cases "i = mid")
          case True
          then show ?thesis using pm by simp
        next
          case False
          then have "rank_le (xs ! mid) (xs ! i)"
            using i sorted_wrt_nth_less [OF sorted, of mid i] by simp
          then show ?thesis using pm by (auto simp: rank_le_def intro: num_lt_le_trans)
        qed
      qed
      have eq: "binary_search by_rank p xs left right = binary_search by_rank p xs left mid"
        using True lt by (subst binary_search.simps) (simp add: mid_def Let_def)
      have "mid \<le> length xs" using ml by simp
      from "1"(1) [OF True mid_def lt sorted nn np mid(1) this "1.prems"(6) hi]
      show ?thesis unfolding eq .
    next
      case ge: False
      then have mp: "num_le (rank (xs ! mid)) (rank p)"
        using np nm by (simp add: lt_zero_by_rank num_le_total)
      have lo: "\<forall>i<mid + 1. num_le (rank (xs ! i)) (rank p)"
      proof (intro allI impI)
        fix i assume i: "i < mid + 1"
        show "num_le (rank (xs ! i)) (rank p)"
        proof (cases "i = mid")
          case True
          then show ?thesis using mp by simp
        next
          case False
          then have "rank_le (xs ! i) (xs ! mid)"
            using i ml sorted_wrt_nth_less [OF sorted, of i mid] by simp
          then show ?thesis using mp by (auto simp: rank_le_def intro: num_le_trans)
        qed
      qed
      have eq: "binary_search by_rank p xs left right = binary_search by_rank p xs (mid + 1) right"
        using True ge by (subst binary_search.simps) (simp add: mid_def Let_def)
      have "mid + 1 \<le> right" using mid by simp
      from "1"(2) [OF True mid_def ge sorted nn np this "1.prems"(5) lo "1.prems"(7)]
      show ?thesis unfolding eq .
    qed
  qed
qed

lemma binary_search_cut:
  assumes "sorted_wrt rank_le (xs :: 'a Rank list)" and "\<forall>e \<in> set xs. rank e \<noteq> NaN"
    and "rank p \<noteq> NaN"
  shows "(\<forall>x \<in> set (take (binary_search by_rank p xs 0 (length xs)) xs). rank_le x p) \<and>
         (\<forall>y \<in> set (drop (binary_search by_rank p xs 0 (length xs)) xs).
             num_lt (rank p) (rank y))"
proof -
  let ?k = "binary_search by_rank p xs 0 (length xs)"
  have s: "?k \<le> length xs \<and> (\<forall>i<?k. num_le (rank (xs ! i)) (rank p)) \<and>
      (\<forall>i. ?k \<le> i \<and> i < length xs \<longrightarrow> num_lt (rank p) (rank (xs ! i)))"
    using assms by (intro binary_search_split) auto
  have "\<forall>x \<in> set (take ?k xs). rank_le x p"
  proof
    fix x assume "x \<in> set (take ?k xs)"
    then obtain i where "i < ?k" "i < length xs" "x = xs ! i"
      by (auto simp: in_set_conv_nth)
    then show "rank_le x p" using s by (simp add: rank_le_def)
  qed
  moreover have "\<forall>y \<in> set (drop ?k xs). num_lt (rank p) (rank y)"
  proof
    fix y assume "y \<in> set (drop ?k xs)"
    then obtain i where "i < length xs - ?k" "y = xs ! (?k + i)"
      by (auto simp: in_set_conv_nth)
    then show "num_lt (rank p) (rank y)" using s by simp
  qed
  ultimately show ?thesis by simp
qed

lemma sorted_insert:
  assumes "sorted_wrt rank_le (xs :: 'a Rank list)" and "\<forall>e \<in> set xs. rank e \<noteq> NaN"
    and "rank p \<noteq> NaN"
  shows "sorted_wrt rank_le
     (take (binary_search by_rank p xs 0 (length xs)) xs @
      p # drop (binary_search by_rank p xs 0 (length xs)) xs)"
proof -
  let ?k = "binary_search by_rank p xs 0 (length xs)"
  from binary_search_cut [OF assms]
  have lo: "\<forall>x \<in> set (take ?k xs). rank_le x p"
    and hi: "\<forall>y \<in> set (drop ?k xs). num_lt (rank p) (rank y)" by simp_all
  have hi': "\<forall>y \<in> set (drop ?k xs). rank_le p y"
    using hi by (simp add: rank_le_def num_lt_imp_le)
  have "sorted_wrt rank_le (take ?k xs)" "sorted_wrt rank_le (drop ?k xs)"
    using assms(1) by (simp_all add: sorted_wrt_take sorted_wrt_drop)
  moreover have "\<forall>x \<in> set (take ?k xs). \<forall>y \<in> set (drop ?k xs). rank_le x y"
    using lo hi' by (auto simp: rank_le_def intro: num_le_trans)
  ultimately show ?thesis using lo hi' by (simp add: sorted_wrt_append)
qed

lemma filter_insert:
  assumes "sorted_wrt rank_le (xs :: 'a Rank list)" and "\<forall>e \<in> set xs. rank e \<noteq> NaN"
    and "rank p \<noteq> NaN"
  shows "filter (\<lambda>e. rank e = k)
     (take (binary_search by_rank p xs 0 (length xs)) xs @
      p # drop (binary_search by_rank p xs 0 (length xs)) xs) =
     filter (\<lambda>e. rank e = k) xs @ filter (\<lambda>e. rank e = k) [p]"
proof -
  let ?k = "binary_search by_rank p xs 0 (length xs)"
  let ?P = "\<lambda>e. rank e = k"
  from binary_search_cut [OF assms]
  have hi: "\<forall>y \<in> set (drop ?k xs). num_lt (rank p) (rank y)" by simp
  have split: "filter ?P xs = filter ?P (take ?k xs) @ filter ?P (drop ?k xs)"
    by (metis append_take_drop_id filter_append)
  show ?thesis
  proof (cases "rank p = k")
    case True
    have "\<forall>y \<in> set (drop ?k xs). rank y \<noteq> k"
      using hi True num_lt_neq by fastforce
    then have "filter ?P (drop ?k xs) = []"
      by (simp add: filter_empty_conv)
    then show ?thesis using True split by simp
  next
    case False
    then show ?thesis using split by simp
  qed
qed

lemma set_insert: "set (take n xs @ p # drop n xs) = insert p (set xs)"
proof -
  have "set (take n xs) \<union> set (drop n xs) = set xs"
    by (metis append_take_drop_id set_append)
  then show ?thesis by auto
qed

lemma sorted_binary_insertion_sort:
  "sorted_wrt rank_le (front :: 'a Rank list) \<Longrightarrow> \<forall>e \<in> set front \<union> set rest. rank e \<noteq> NaN \<Longrightarrow>
   sorted_wrt rank_le (binary_insertion_sort by_rank front rest)"
proof (induction rest arbitrary: front)
  case Nil
  then show ?case by simp
next
  case (Cons p rest)
  let ?k = "binary_search by_rank p front 0 (length front)"
  have "sorted_wrt rank_le (take ?k front @ p # drop ?k front)"
    using Cons.prems by (intro sorted_insert) simp_all
  moreover have "\<forall>e \<in> set (take ?k front @ p # drop ?k front) \<union> set rest. rank e \<noteq> NaN"
    using Cons.prems by (simp only: set_insert) auto
  ultimately show ?case using Cons.IH by (simp add: Let_def)
qed

lemma filter_binary_insertion_sort:
  "sorted_wrt rank_le (front :: 'a Rank list) \<Longrightarrow> \<forall>e \<in> set front \<union> set rest. rank e \<noteq> NaN \<Longrightarrow>
   filter (\<lambda>e. rank e = k) (binary_insertion_sort by_rank front rest) =
   filter (\<lambda>e. rank e = k) front @ filter (\<lambda>e. rank e = k) rest"
proof (induction rest arbitrary: front)
  case Nil
  then show ?case by simp
next
  case (Cons p rest)
  let ?k = "binary_search by_rank p front 0 (length front)"
  let ?front = "take ?k front @ p # drop ?k front"
  have s: "sorted_wrt rank_le ?front"
    using Cons.prems by (intro sorted_insert) simp_all
  have n: "\<forall>e \<in> set ?front \<union> set rest. rank e \<noteq> NaN"
    using Cons.prems by (simp only: set_insert) auto
  have f: "filter (\<lambda>e. rank e = k) ?front =
      filter (\<lambda>e. rank e = k) front @ filter (\<lambda>e. rank e = k) [p]"
    using Cons.prems by (intro filter_insert) simp_all
  have "filter (\<lambda>e. rank e = k) (binary_insertion_sort by_rank front (p # rest)) =
      filter (\<lambda>e. rank e = k) (binary_insertion_sort by_rank ?front rest)"
    by (simp add: Let_def)
  also have "\<dots> = filter (\<lambda>e. rank e = k) ?front @ filter (\<lambda>e. rank e = k) rest"
    using s n by (rule Cons.IH)
  finally show ?case by (simp only: f) simp
qed


text \<open>
  So the insertion keeps the front sorted and puts the pivot behind the elements of its
  own rank, and the whole sort is ascending, keeps the elements of one rank in their
  order, and leaves an ascending array as it is.
\<close>

lemma count_and_make_run_eq:
  "count_and_make_run c (x0 # x1 # rest) =
     (let d = lt_zero (sort_compare c x1 x0);
          n = Suc (run_length c d x0 (x1 # rest))
      in if d then (rev (take n (x0 # x1 # rest)) @ drop n (x0 # x1 # rest), n)
         else (x0 # x1 # rest, n))"
  by (simp add: Let_def)

lemma take_rev_run: "n \<le> length xs \<Longrightarrow> take n (rev (take n xs) @ drop n xs) = rev (take n xs)"
  by simp

lemma make_run:
  assumes "\<forall>e \<in> set (xs :: 'a Rank list). rank e \<noteq> NaN"
    and "count_and_make_run by_rank xs = (ys, n)"
  shows "sorted_wrt rank_le (take n ys) \<and> set ys = set xs \<and>
         filter (\<lambda>e. rank e = k) ys = filter (\<lambda>e. rank e = k) xs"
proof (cases "(by_rank :: 'a Rank \<Rightarrow> 'a Rank \<Rightarrow> number, xs)" rule: count_and_make_run.cases)
  case (1 c x0 x1 rest)
  let ?d = "lt_zero (sort_compare by_rank x1 x0)"
  let ?m = "Suc (run_length by_rank ?d x0 (x1 # rest))"
  have xs: "xs = x0 # x1 # rest" using 1 by simp
  have m: "?m \<le> length xs"
    using run_length_le [of by_rank ?d x0 "x1 # rest"] xs by simp
  have tk: "take ?m xs = x0 # take (run_length by_rank ?d x0 (x1 # rest)) (x1 # rest)"
    using xs by simp
  have nn: "\<forall>e \<in> set (x0 # x1 # rest). rank e \<noteq> NaN" using assms(1) xs by simp
  show ?thesis
  proof (cases ?d)
    case True
    have "count_and_make_run by_rank xs = (rev (take ?m xs) @ drop ?m xs, ?m)"
      by (simp only: xs count_and_make_run_eq Let_def True if_True)
    then have r: "ys = rev (take ?m xs) @ drop ?m xs" "n = ?m"
      using assms(2) by simp_all
    have desc: "sorted_wrt rank_gt (take ?m xs)"
      unfolding tk using descending_run [OF nn] True by simp
    have "sorted_wrt rank_le (take n ys)"
      using desc m unfolding r by (simp only: take_rev_run rev_descending)
    moreover have "set ys = set xs"
      unfolding r using mset_take_drop [of ?m xs] by (metis mset_append mset_rev set_mset_mset)
    moreover have "filter (\<lambda>e. rank e = k) ys = filter (\<lambda>e. rank e = k) xs"
    proof -
      have "filter (\<lambda>e. rank e = k) ys =
          filter (\<lambda>e. rank e = k) (take ?m xs) @ filter (\<lambda>e. rank e = k) (drop ?m xs)"
        unfolding r by (simp only: filter_append filter_rev_descending [OF desc])
      then show ?thesis by (metis append_take_drop_id filter_append)
    qed
    ultimately show ?thesis by simp
  next
    case False
    have "count_and_make_run by_rank xs = (xs, ?m)"
      by (simp only: xs count_and_make_run_eq Let_def False if_False)
    then have r: "ys = xs" "n = ?m"
      using assms(2) by simp_all
    have "sorted_wrt rank_le (take ?m xs)"
      unfolding tk using ascending_run [OF nn] False by simp
    then show ?thesis using r by simp
  qed
next
  case "2_1"
  then show ?thesis using assms(2) by auto
next
  case "2_2"
  then show ?thesis using assms(2) by auto
qed

lemma sorted_array_sort:
  assumes "\<forall>e \<in> set (xs :: 'a Rank list). rank e \<noteq> NaN"
  shows "sorted_wrt rank_le (array_sort by_rank xs)"
proof (cases "length xs < 2")
  case True
  then have "xs = [] \<or> (\<exists>x. xs = [x])" by (cases xs) auto
  then show ?thesis using True by (auto simp: array_sort_def)
next
  case False
  obtain ys n where r: "count_and_make_run by_rank xs = (ys, n)"
    by (cases "count_and_make_run by_rank xs")
  from make_run [OF assms r] have s: "sorted_wrt rank_le (take n ys)" and e: "set ys = set xs"
    by simp_all
  have "\<forall>e \<in> set (take n ys) \<union> set (drop n ys). rank e \<noteq> NaN"
    using assms e by (metis append_take_drop_id set_append)
  with s have "sorted_wrt rank_le (binary_insertion_sort by_rank (take n ys) (drop n ys))"
    by (rule sorted_binary_insertion_sort)
  then show ?thesis using False r by (simp add: array_sort_def)
qed

lemma filter_array_sort:
  assumes "\<forall>e \<in> set (xs :: 'a Rank list). rank e \<noteq> NaN"
  shows "filter (\<lambda>e. rank e = k) (array_sort by_rank xs) = filter (\<lambda>e. rank e = k) xs"
proof (cases "length xs < 2")
  case True
  then show ?thesis by (simp add: array_sort_def)
next
  case False
  let ?P = "\<lambda>e. rank e = k"
  obtain ys n where r: "count_and_make_run by_rank xs = (ys, n)"
    by (cases "count_and_make_run by_rank xs")
  from make_run [OF assms r, of k] have s: "sorted_wrt rank_le (take n ys)"
    and e: "set ys = set xs" and f: "filter ?P ys = filter ?P xs"
    by simp_all
  have nn: "\<forall>e \<in> set (take n ys) \<union> set (drop n ys). rank e \<noteq> NaN"
    using assms e by (metis append_take_drop_id set_append)
  have "filter ?P (array_sort by_rank xs) =
      filter ?P (binary_insertion_sort by_rank (take n ys) (drop n ys))"
    using False r by (simp add: array_sort_def)
  also have "\<dots> = filter ?P (take n ys) @ filter ?P (drop n ys)"
    using s nn by (rule filter_binary_insertion_sort)
  also have "\<dots> = filter ?P ys" by (metis append_take_drop_id filter_append)
  finally show ?thesis using f by simp
qed

lemma run_length_sorted:
  "sorted_wrt rank_le (prev # xs) \<Longrightarrow> run_length by_rank False prev xs = length xs"
proof (induction xs arbitrary: prev)
  case Nil
  then show ?case by simp
next
  case (Cons x xs)
  have "\<not> lt_zero (sort_compare by_rank x prev)"
    using Cons.prems by (intro not_lt_zero_if_le) (simp add: rank_le_def)
  moreover have "run_length by_rank False x xs = length xs"
    using Cons.prems by (intro Cons.IH) simp
  ultimately show ?case by (simp add: Let_def)
qed

lemma array_sort_sorted_id:
  assumes "sorted_wrt rank_le (xs :: 'a Rank list)"
  shows "array_sort by_rank xs = xs"
proof (cases "(by_rank :: 'a Rank \<Rightarrow> 'a Rank \<Rightarrow> number, xs)" rule: count_and_make_run.cases)
  case (1 c x0 x1 rest)
  then have xs: "xs = x0 # x1 # rest" by simp
  have a: "\<not> lt_zero (sort_compare by_rank x1 x0)"
    using assms xs by (intro not_lt_zero_if_le) (simp add: rank_le_def)
  have "run_length by_rank False x1 rest = length rest"
    using assms xs by (intro run_length_sorted) simp
  then have "count_and_make_run by_rank xs = (xs, length xs)"
    using a xs by (simp add: Let_def)
  then show ?thesis using xs by (simp add: array_sort_def)
next
  case "2_1"
  then show ?thesis by (simp add: array_sort_def)
next
  case "2_2"
  then show ?thesis by (simp add: array_sort_def)
qed

section \<open>The result is a permutation of the input\<close>

lemma item_decorate: "map item (map (decorate rk) xs) = xs"
  by (induction xs) (simp_all add: decorate_def)

lemma mset_ranker: "mset (ranker items rk) = mset items"
proof -
  have "mset (ranker items rk) =
      image_mset item (mset (array_sort by_rank (map (decorate rk) items)))"
    by (simp add: ranker_def)
  also have "\<dots> = mset (map item (map (decorate rk) items))"
    by (simp only: mset_array_sort mset_map)
  finally show ?thesis by (simp only: item_decorate)
qed

lemma length_ranker: "length (ranker items rk) = length items"
  using mset_ranker [of items rk] by (rule mset_eq_length)

text \<open>
  C1. Whatever the rank function returns, NaN included, the sequence that
  \<open>ranker\<close> returns has the length of the input and the same elements with the same
  multiplicities: nothing is added and nothing is dropped.
\<close>

theorem ranker_permutation:
  "length (ranker items rk) = length items \<and> mset (ranker items rk) = mset items"
  by (simp add: length_ranker mset_ranker)

section \<open>The result is ascending\<close>

lemma rank_decorated:
  "e \<in> set (array_sort by_rank (map (decorate rk) items)) \<Longrightarrow> rank e = rk (item e)"
  by (auto simp: set_array_sort decorate_def)

lemma sorted_ranker:
  assumes "\<forall>x \<in> set items. rk x \<noteq> NaN"
  shows "sorted_wrt (\<lambda>a b. num_le (rk a) (rk b)) (ranker items rk)"
proof -
  let ?S = "array_sort by_rank (map (decorate rk) items)"
  have "\<forall>e \<in> set (map (decorate rk) items). rank e \<noteq> NaN"
    using assms by (auto simp: decorate_def)
  then have "sorted_wrt rank_le ?S" by (rule sorted_array_sort)
  then have "sorted_wrt (\<lambda>a b. num_le (rk (item a)) (rk (item b))) ?S"
    by (rule sorted_wrt_mono_rel [rotated]) (simp add: rank_le_def rank_decorated)
  then show ?thesis by (simp add: ranker_def sorted_wrt_map)
qed

text \<open>
  C2. When no item of the input has the rank NaN, the result of \<open>ranker\<close> is
  ascending by rank: at any two positions \<open>i < j\<close> of the result, the rank of the item
  at \<open>i\<close> is at most the rank of the item at \<open>j\<close>. The infinities count as ordinary
  numbers here.
\<close>

theorem ranker_ascending:
  assumes "\<forall>x \<in> set items. rk x \<noteq> NaN" and "i < j" and "j < length (ranker items rk)"
  shows "num_le (rk (ranker items rk ! i)) (rk (ranker items rk ! j))"
  using sorted_ranker [OF assms(1)] assms(2,3) by (simp add: sorted_wrt_iff_nth_less)

text \<open>The script's own call: the two pokemon come back in the order of their \<open>hp\<close>.\<close>

lemma ranker_pokemon:
  "ranker pokemon hp =
     [\<lparr>Pokemon.name = ''Megaasaur'', hp = Num 5\<rparr>, \<lparr>Pokemon.name = ''Bulbasaur'', hp = Num 20\<rparr>]"
  by code_simp

theorem ranker_ascending_witness:
  "num_le (hp (ranker pokemon hp ! 0)) (hp (ranker pokemon hp ! 1))"
proof -
  have h1: "\<forall>x\<in>set pokemon. hp x \<noteq> NaN" by (simp add: pokemon_def)
  have h2: "(0::nat) < 1" by simp
  have h3: "1 < length (ranker pokemon hp)" by (simp add: length_ranker pokemon_def)
  show ?thesis by (rule ranker_ascending [OF h1 h2 h3])
qed

section \<open>Stability\<close>

text \<open>The items of any one rank leave \<open>ranker\<close> in the order in which they entered.\<close>

lemma filter_ranker:
  assumes "\<forall>x \<in> set items. rk x \<noteq> NaN"
  shows "filter (\<lambda>x. rk x = k) (ranker items rk) = filter (\<lambda>x. rk x = k) items"
proof -
  let ?D = "map (decorate rk) items"
  let ?S = "array_sort by_rank ?D"
  have nn: "\<forall>e \<in> set ?D. rank e \<noteq> NaN"
    using assms by (auto simp: decorate_def)
  have "filter (\<lambda>x. rk x = k) (ranker items rk) = map item (filter (\<lambda>e. rk (item e) = k) ?S)"
    by (simp add: ranker_def filter_map comp_def)
  also have "filter (\<lambda>e. rk (item e) = k) ?S = filter (\<lambda>e. rank e = k) ?S"
    by (rule filter_cong) (simp_all add: rank_decorated)
  also have "\<dots> = filter (\<lambda>e. rank e = k) ?D"
    using nn by (rule filter_array_sort)
  also have "\<dots> = map (decorate rk) (filter (\<lambda>x. rk x = k) items)"
    by (simp add: filter_map comp_def decorate_def)
  finally show ?thesis by (simp add: comp_def decorate_def)
qed

text \<open>
  On ranks without NaN the program computes what the library's stable sort computes,
  as it does with every stable sorting algorithm in the place of the modelled one.
\<close>

lemma ranker_is_sort_key:
  assumes "\<forall>x \<in> set items. rk x \<noteq> NaN"
  shows "ranker items rk = sort_key (\<lambda>x. order_key (rk x)) items"
proof (rule sym, rule properties_for_sort_key)
  show "mset (ranker items rk) = mset items" by (rule mset_ranker)
  show "filter (\<lambda>x. order_key (rk k) = order_key (rk x)) (ranker items rk) =
        filter (\<lambda>x. order_key (rk k) = order_key (rk x)) items" for k
    using filter_ranker [OF assms, of "rk k"] by (simp add: order_key_inj eq_commute)
  have nn: "\<forall>x \<in> set (ranker items rk). rk x \<noteq> NaN"
    using assms mset_ranker [of items rk] by (metis set_mset_mset)
  have "sorted_wrt (\<lambda>a b. order_key (rk a) \<le> order_key (rk b)) (ranker items rk)"
    by (rule sorted_wrt_mono_rel [OF _ sorted_ranker [OF assms]]) (simp add: nn order_key_le)
  then show "sorted (map (\<lambda>x. order_key (rk x)) (ranker items rk))"
    by (simp add: sorted_wrt_map)
qed

text \<open>What \<open>appears_before\<close> computes, in terms of positions.\<close>

lemma appears_before_iff:
  "appears_before a b xs \<longleftrightarrow> (\<exists>i j. i < j \<and> j < length xs \<and> xs ! i = a \<and> xs ! j = b)"
proof (induction xs)
  case Nil
  then show ?case by simp
next
  case (Cons x xs)
  show ?case
  proof
    assume "appears_before a b (x # xs)"
    then consider "x = a" "b \<in> set xs" | "appears_before a b xs" by auto
    then show "\<exists>i j. i < j \<and> j < length (x # xs) \<and> (x # xs) ! i = a \<and> (x # xs) ! j = b"
    proof cases
      case 1
      then obtain n where "n < length xs" "xs ! n = b" by (auto simp: in_set_conv_nth)
      then have "0 < Suc n \<and> Suc n < length (x # xs) \<and> (x # xs) ! 0 = a \<and> (x # xs) ! Suc n = b"
        using 1 by simp
      then show ?thesis by blast
    next
      case 2
      then obtain i j where "i < j" "j < length xs" "xs ! i = a" "xs ! j = b"
        using Cons.IH by blast
      then have "Suc i < Suc j \<and> Suc j < length (x # xs) \<and>
          (x # xs) ! Suc i = a \<and> (x # xs) ! Suc j = b"
        by simp
      then show ?thesis by blast
    qed
  next
    assume "\<exists>i j. i < j \<and> j < length (x # xs) \<and> (x # xs) ! i = a \<and> (x # xs) ! j = b"
    then obtain i j where ij: "i < j" "j < length (x # xs)" "(x # xs) ! i = a" "(x # xs) ! j = b"
      by blast
    then obtain j' where j': "j = Suc j'" by (cases j) auto
    show "appears_before a b (x # xs)"
    proof (cases i)
      case 0
      then have "x = a" "b \<in> set xs" using ij j' by auto
      then show ?thesis by simp
    next
      case (Suc i')
      then have "i' < j' \<and> j' < length xs \<and> xs ! i' = a \<and> xs ! j' = b" using ij j' by auto
      then have "appears_before a b xs" using Cons.IH by blast
      then show ?thesis by simp
    qed
  qed
qed

lemma appears_before_filter:
  "appears_before a b xs \<Longrightarrow> P a \<Longrightarrow> P b \<Longrightarrow> appears_before a b (filter P xs)"
  by (induction xs) auto

lemma appears_before_unfilter:
  "appears_before a b (filter P xs) \<Longrightarrow> appears_before a b xs"
  by (induction xs) (auto split: if_splits)

text \<open>
  C3, as amended. When no item of the input has the rank NaN, \<open>ranker\<close> is stable:
  if \<open>a\<close> and \<open>b\<close> have the same rank and \<open>a\<close> appears before \<open>b\<close> in the input,
  then \<open>a\<close> appears before \<open>b\<close> in the result.
\<close>

theorem ranker_stable:
  assumes "\<forall>x \<in> set items. rk x \<noteq> NaN" and "rk a = rk b" and "appears_before a b items"
  shows "appears_before a b (ranker items rk)"
proof -
  let ?P = "\<lambda>x. rk x = rk a"
  have "appears_before a b (filter ?P items)"
    using assms(2,3) by (intro appears_before_filter) simp_all
  then have "appears_before a b (filter ?P (ranker items rk))"
    by (simp only: filter_ranker [OF assms(1)])
  then show ?thesis by (rule appears_before_unfilter)
qed

theorem ranker_stable_witness:
  "appears_before (''a'', Num 1) (''b'', Num 1) (ranker ties snd)"
proof -
  have h1: "\<forall>x\<in>set ties. snd x \<noteq> NaN" by (simp add: ties_def)
  have h2: "snd (''a'', Num 1) = snd (''b'', Num 1)" by simp
  have h3: "appears_before (''a'', Num 1) (''b'', Num 1) ties" by (simp add: ties_def)
  show ?thesis by (rule ranker_stable [OF h1 h2 h3])
qed

text \<open>
  C3, as stated for every rank function, fails. A rank of NaN makes the comparator
  \<^verbatim>\<open>a.rank - b.rank\<close> return NaN, which the sort reads as "equal": such an item is equal
  to every other item, the comparator is no consistent comparison any more, and the
  front that the binary search takes for sorted is not. In \<open>tied\<close> the items \<open>f\<close>
  and \<open>h\<close> both have rank 0 and \<open>f\<close> comes first. The run at the start is \<open>a, b\<close>,
  descending, and is reversed to \<open>b, a\<close>; \<open>c\<close>, of rank NaN, stays behind \<open>a\<close>;
  \<open>d\<close> and \<open>e\<close> are inserted between \<open>b\<close> and \<open>a\<close>. For \<open>f\<close> the search looks at
  \<open>e\<close> and then at \<open>c\<close>, finds both equal, and leaves \<open>f\<close> behind \<open>c\<close>; \<open>g\<close>
  stays at the end. For \<open>h\<close> the search looks at \<open>a\<close> first, goes left, passes \<open>d\<close>
  and \<open>e\<close>, and puts \<open>h\<close> in front of \<open>a\<close>: ahead of \<open>f\<close>.
\<close>

lemma ranker_tied:
  "ranker tied snd =
     [(''b'', Num 0), (''d'', Num 0), (''e'', Num 0), (''h'', Num 0),
      (''a'', Num 1), (''c'', NaN), (''f'', Num 0), (''g'', NaN)]"
  by code_simp

theorem ranker_stable_counterexample:
  "snd (''f'', Num 0) = snd (''h'', Num 0) \<and>
   appears_before (''f'', Num 0) (''h'', Num 0) tied \<and>
   \<not> appears_before (''f'', Num 0) (''h'', Num 0) (ranker tied snd)"
  by (simp add: ranker_tied) (simp add: tied_def)

section \<open>An input that is already ascending\<close>

text \<open>
  C7. An input that is ascending by rank (every earlier item has a rank at most that of
  every later one) comes back element for element, and the empty input gives the empty
  result for every rank function.
\<close>

theorem ranker_sorted_input_unchanged:
  "(sorted_wrt (\<lambda>a b. num_le (rk a) (rk b)) items \<longrightarrow> ranker items rk = items) \<and>
   ranker [] rk = []"
proof
  show "sorted_wrt (\<lambda>a b. num_le (rk a) (rk b)) items \<longrightarrow> ranker items rk = items"
  proof
    assume "sorted_wrt (\<lambda>a b. num_le (rk a) (rk b)) items"
    then have "sorted_wrt rank_le (map (decorate rk) items)"
      by (simp add: sorted_wrt_map rank_le_def decorate_def)
    then have "array_sort by_rank (map (decorate rk) items) = map (decorate rk) items"
      by (rule array_sort_sorted_id)
    then show "ranker items rk = items" by (simp add: ranker_def comp_def decorate_def)
  qed
  show "ranker [] rk = []" by (simp add: ranker_def array_sort_def)
qed

theorem ranker_sorted_input_unchanged_witness: "ranker human age = human"
proof -
  have "sorted_wrt (\<lambda>a b. num_le (age a) (age b)) human" by (simp add: human_def)
  with ranker_sorted_input_unchanged [of age human] show ?thesis by blast
qed

section \<open>The calls of the rank function\<close>

lemma decorate_eff_Inl: "rk v s = (Inl e, s1) \<Longrightarrow> decorate_eff rk v s = (Inl e, s1)"
  by (simp add: decorate_eff_def)

lemma decorate_eff_Inr:
  "rk v s = (Inr r, s1) \<Longrightarrow> decorate_eff rk v s = (Inr \<lparr>item = v, rank = r\<rparr>, s1)"
  by (simp add: decorate_eff_def)

lemma isl_decorate_eff: "isl (fst (decorate_eff rk v t)) = isl (fst (rk v t))"
  by (cases "rk v t"; cases "fst (rk v t)") (simp_all add: decorate_eff_def)

lemma recorded_step: "rk v s = (r, s1) \<Longrightarrow> recorded rk v (calls, s) = (r, (calls @ [v], s1))"
  by (simp add: recorded_def)

text \<open>With a rank function that has no effects, \<open>ranker_eff\<close> is \<open>ranker\<close>.\<close>

lemma decorate_eff_pure: "decorate_eff (pure_rank rk) v s = (Inr (decorate rk v), s)"
  by (simp add: decorate_eff_def pure_rank_def decorate_def)

lemma map_eff_pure:
  "array_map_eff (decorate_eff (pure_rank rk)) xs s = (Inr (map (decorate rk) xs), s)"
  by (induction xs) (simp_all add: decorate_eff_pure)

lemma ranker_eff_pure: "ranker_eff items (pure_rank rk) s = (Inr (ranker items rk), s)"
  by (simp add: ranker_eff_def map_eff_pure ranker_def)

lemma map_eff_recorded:
  "array_map_eff (decorate_eff (recorded rk)) xs (calls, s) = (res, (calls', s')) \<Longrightarrow>
   (\<exists>n\<le>length xs. calls' = calls @ take n xs) \<and> (\<not> isl res \<longrightarrow> calls' = calls @ xs)"
proof (induction xs arbitrary: calls s res calls' s')
  case Nil
  then show ?case by auto
next
  case (Cons x xs)
  obtain r s1 where r: "rk x s = (r, s1)" by (cases "rk x s")
  show ?case
  proof (cases r)
    case (Inl e)
    have "decorate_eff (recorded rk) x (calls, s) = (Inl e, (calls @ [x], s1))"
      using r Inl by (intro decorate_eff_Inl recorded_step) simp
    then have "calls' = calls @ take 1 (x # xs)" and "isl res"
      using Cons.prems by auto
    then show ?thesis by (metis One_nat_def Suc_leI length_Cons zero_less_Suc)
  next
    case (Inr y)
    have step: "decorate_eff (recorded rk) x (calls, s) =
        (Inr \<lparr>item = x, rank = y\<rparr>, (calls @ [x], s1))"
      using r Inr by (intro decorate_eff_Inr recorded_step) simp
    obtain res2 calls2 s2 where
      rec: "array_map_eff (decorate_eff (recorded rk)) xs (calls @ [x], s1) = (res2, (calls2, s2))"
      by (metis prod.exhaust)
    from Cons.IH [OF rec] obtain n where
      n: "n \<le> length xs" "calls2 = (calls @ [x]) @ take n xs" and
      all: "\<not> isl res2 \<longrightarrow> calls2 = (calls @ [x]) @ xs" by blast
    have eq: "calls' = calls2 \<and> isl res = isl res2"
      using Cons.prems step rec by (cases res2) auto
    have "Suc n \<le> length (x # xs) \<and> calls' = calls @ take (Suc n) (x # xs)"
      using n eq by simp
    then have "\<exists>n\<le>length (x # xs). calls' = calls @ take n (x # xs)" by blast
    then show ?thesis using all eq by simp
  qed
qed

text \<open>
  C4. Run with the recording projection, \<open>ranker\<close> leaves in the list of calls an
  initial part of the input and never more; when it returns a result, the calls are
  exactly the items of the input, each once and in the order of the input. The sort and
  the final projection add no call.
\<close>

theorem ranker_calls_rank_once_per_item:
  assumes "ranker_eff items (recorded rk) (calls, s) = (res, (calls', s'))"
  shows "(\<exists>n\<le>length items. calls' = calls @ take n items) \<and>
         (\<not> isl res \<longrightarrow> calls' = calls @ items)"
proof -
  obtain res1 where
    m: "array_map_eff (decorate_eff (recorded rk)) items (calls, s) = (res1, (calls', s'))"
    and i: "isl res = isl res1"
    using assms
    by (cases "array_map_eff (decorate_eff (recorded rk)) items (calls, s)")
       (auto simp: ranker_eff_def split: sum.splits)
  from map_eff_recorded [OF m] i show ?thesis by simp
qed

theorem ranker_calls_rank_once_per_item_witness:
  "fst (snd (ranker_eff pokemon
      (recorded (pure_rank hp :: Pokemon \<Rightarrow> unit \<Rightarrow> (unit + number) \<times> unit)) ([], ()))) = pokemon"
proof -
  let ?run = "ranker_eff pokemon
      (recorded (pure_rank hp :: Pokemon \<Rightarrow> unit \<Rightarrow> (unit + number) \<times> unit)) ([], ())"
  have ok: "\<not> isl (fst ?run)"
    by (simp add: pokemon_def ranker_eff_def decorate_eff_def recorded_def pure_rank_def)
  have "?run = (fst ?run, (fst (snd ?run), snd (snd ?run)))" by (simp add: prod_eq_iff)
  from ranker_calls_rank_once_per_item [OF this] ok show ?thesis by simp
qed

section \<open>Failures of the rank function\<close>

lemma map_eff_decorate_ok:
  "array_map_eff rk xs s = (Inr rs, s1) \<Longrightarrow>
   \<exists>ds. array_map_eff (decorate_eff rk) xs s = (Inr ds, s1)"
proof (induction xs arbitrary: s rs)
  case Nil
  then show ?case by simp
next
  case (Cons x xs)
  from Cons.prems obtain y t ys where
    y: "rk x s = (Inr y, t)" and ys: "array_map_eff rk xs t = (Inr ys, s1)"
    by (auto split: prod.splits sum.splits)
  from Cons.IH [OF ys] obtain ds where "array_map_eff (decorate_eff rk) xs t = (Inr ds, s1)"
    by blast
  moreover have "decorate_eff rk x s = (Inr \<lparr>item = x, rank = y\<rparr>, t)"
    using y by (rule decorate_eff_Inr)
  ultimately show ?case by simp
qed

lemma map_eff_stops:
  "array_map_eff f pre s = (Inr ys, s1) \<Longrightarrow> f x s1 = (Inl e, s2) \<Longrightarrow>
   array_map_eff f (pre @ x # post) s = (Inl e, s2)"
proof (induction pre arbitrary: s ys)
  case Nil
  then show ?case by simp
next
  case (Cons p pre)
  then show ?case by (auto split: prod.splits sum.splits)
qed

lemma map_eff_total:
  "\<forall>x\<in>set xs. \<forall>t. \<not> isl (fst (f x t)) \<Longrightarrow> \<not> isl (fst (array_map_eff f xs s))"
proof (induction xs arbitrary: s)
  case Nil
  then show ?case by simp
next
  case (Cons x xs)
  obtain r s1 where r: "f x s = (r, s1)" by (cases "f x s")
  with Cons.prems obtain y where y: "r = Inr y" by (cases r) (auto dest: spec [of _ s])
  have "\<not> isl (fst (array_map_eff f xs s1))" using Cons by simp
  then show ?case using r y by (auto split: prod.splits sum.splits)
qed

text \<open>
  C5. If the rank function returns on the items \<open>pre\<close> and throws \<open>e\<close> on the next
  item \<open>x\<close>, then \<open>ranker\<close> ends with that same exception \<open>e\<close> in the state the throw
  left: no result is returned, and the items \<open>post\<close> behind \<open>x\<close> are never looked at.
  If the rank function throws on no item of the input, in whatever state it is called,
  then \<open>ranker\<close> returns a result.
\<close>

theorem ranker_propagates_failure:
  "(array_map_eff rk pre s = (Inr rs, s1) \<and> rk x s1 = (Inl e, s2)
      \<longrightarrow> ranker_eff (pre @ x # post) rk s = (Inl e, s2))
   \<and> ((\<forall>v\<in>set items. \<forall>t. \<not> isl (fst (rk v t))) \<longrightarrow> \<not> isl (fst (ranker_eff items rk s)))"
proof (intro conjI impI)
  assume a: "array_map_eff rk pre s = (Inr rs, s1) \<and> rk x s1 = (Inl e, s2)"
  then have "\<exists>ds. array_map_eff (decorate_eff rk) pre s = (Inr ds, s1)"
    by (intro map_eff_decorate_ok [of rk pre s rs s1]) simp
  then obtain ds where "array_map_eff (decorate_eff rk) pre s = (Inr ds, s1)" ..
  moreover have "decorate_eff rk x s1 = (Inl e, s2)"
    using a by (simp add: decorate_eff_Inl)
  ultimately have "array_map_eff (decorate_eff rk) (pre @ x # post) s = (Inl e, s2)"
    by (rule map_eff_stops)
  then show "ranker_eff (pre @ x # post) rk s = (Inl e, s2)"
    by (simp add: ranker_eff_def)
next
  assume "\<forall>v\<in>set items. \<forall>t. \<not> isl (fst (rk v t))"
  then have "\<forall>v\<in>set items. \<forall>t. \<not> isl (fst (decorate_eff rk v t))"
    by (simp add: isl_decorate_eff)
  then have "\<not> isl (fst (array_map_eff (decorate_eff rk) items s))"
    by (rule map_eff_total)
  then show "\<not> isl (fst (ranker_eff items rk s))"
    by (auto simp: ranker_eff_def split: prod.splits sum.splits)
qed

theorem ranker_propagates_failure_witness:
  "ranker_eff [3, 1, 2, 5] failing_rank 0 = (Inl ''boom'', 3) \<and>
   \<not> isl (fst (ranker_eff [3, 1, 5] failing_rank 0))"
proof -
  have a: "array_map_eff failing_rank [3, 1] 0 = (Inr [Num 3, Num 1], 2) \<and>
           failing_rank 2 2 = (Inl ''boom'', 3)"
    by (simp add: failing_rank_def)
  have b: "\<forall>v\<in>set [3, 1, 5]. \<forall>t. \<not> isl (fst (failing_rank v t))"
    by (simp add: failing_rank_def)
  from ranker_propagates_failure
         [of failing_rank "[3, 1]" 0 "[Num 3, Num 1]" 2 2 "''boom''" 3 "[5]" "[3, 1, 5]"]
    a b show ?thesis by simp
qed

section \<open>The input array and the returned array\<close>

text \<open>
  C6. Called on the address of an array of items, \<open>ranker\<close> returns the address of an
  array that did not exist before the call, so the result is not the input array; every
  array that existed before the call, the input among them, has the content it had;
  and the new array holds what \<open>ranker\<close> computes from the content of the input.
\<close>

theorem ranker_heap_frame:
  assumes "items < length h" and "h ! items = Items xs"
  shows "\<exists>result h'. ranker_heap items rk h = Some (result, h') \<and>
           length h \<le> result \<and> result < length h' \<and> result \<noteq> items \<and>
           take (length h) h' = h \<and> h' ! items = Items xs \<and>
           h' ! result = Items (ranker xs rk)"
  using assms
  by (simp add: ranker_heap_def map_decorate_def sort_in_place_def map_item_def alloc_def
      nth_append ranker_def)

theorem ranker_heap_frame_witness:
  "\<exists>result h'. ranker_heap 0 hp [Items pokemon] = Some (result, h') \<and>
     result \<noteq> 0 \<and> h' ! 0 = Items pokemon \<and> h' ! result = Items (ranker pokemon hp)"
proof -
  have h1: "0 < length [Items pokemon]" by simp
  have h2: "[Items pokemon] ! 0 = Items pokemon" by simp
  from ranker_heap_frame [OF h1 h2, of hp] show ?thesis by blast
qed

section \<open>pluck\<close>

text \<open>
  C8. \<open>pluck\<close> returns as many values as there are items, and the value at each
  position is what reading the key on the item at that position gives: the value of the
  field, for an item that has the field.
\<close>

theorem pluck_fields:
  "length (pluck items key) = length items \<and>
   (\<forall>i<length items. pluck items key ! i = get_prop (items ! i) key \<and>
        (\<forall>v. (items ! i) key = Some v \<longrightarrow> pluck items key ! i = v))"
  by (simp add: pluck_def get_prop_def)

theorem pluck_fields_witness:
  "length (pluck dogs ''name'') = 2 \<and> pluck dogs ''name'' ! 1 = Str ''LG''"
proof -
  have l: "length dogs = 2" and i: "1 < length dogs"
    and v: "(dogs ! 1) ''name'' = Some (Str ''LG'')"
    by (simp_all add: dogs_def)
  from pluck_fields [of dogs "''name''"] i v
  have "length (pluck dogs ''name'') = length dogs" and "pluck dogs ''name'' ! 1 = Str ''LG''"
    by blast+
  with l show ?thesis by simp
qed

text \<open>
  C10. Where an item lacks the field, the result still has one entry for every item,
  and the entry at the position of that item is \<^verbatim>\<open>undefined\<close>. \<open>pluck\<close> has no failing
  branch: it is a total function into the lists of values.
\<close>

theorem pluck_absent_field:
  assumes "i < length items" and "(items ! i) key = None"
  shows "length (pluck items key) = length items \<and> pluck items key ! i = Undefined"
  using assms by (simp add: pluck_def get_prop_def)

text \<open>The second dog of the script has no title.\<close>

theorem pluck_absent_field_witness:
  "length (pluck dogs ''title'') = length dogs \<and> pluck dogs ''title'' ! 1 = Undefined"
proof -
  have h1: "1 < length dogs" by (simp add: dogs_def)
  have h2: "(dogs ! 1) ''title'' = None" by (simp add: dogs_def)
  show ?thesis by (rule pluck_absent_field [OF h1 h2])
qed

section \<open>simpleState\<close>

text \<open>
  C9. Let \<open>simpleState\<close> create a cell with the getter \<open>get1\<close> and the setter
  \<open>set1\<close>. Read right after the creation, the cell holds the initial value. In every
  later store, the getter after \<open>set1 v\<close> returns \<open>v\<close>. A cell created by another call
  of \<open>simpleState\<close>, in any later store, is independent of the first: creating it and
  setting it leave the value of the first cell as it was, and setting the first cell
  leaves the value of the other.
\<close>

theorem simpleState_cell:
  assumes "simpleState i1 st = ((get1, set1), st1)"
  shows "get1 st1 = i1 \<and>
         (\<forall>s v. length st1 \<le> length s \<longrightarrow>
            get1 (set1 v s) = v \<and> length (set1 v s) = length s) \<and>
         (\<forall>i2 sa get2 set2 sb s v.
            length st1 \<le> length sa \<and> simpleState i2 sa = ((get2, set2), sb) \<and>
            length sb \<le> length s
            \<longrightarrow> get2 sb = i2 \<and> get1 sb = get1 sa \<and>
                get1 (set2 v s) = get1 s \<and> get2 (set1 v s) = get2 s)"
  using assms by (auto simp: simpleState_def Let_def nth_append)

text \<open>The first cell of the script: created with \<open>[1, 2, 3]\<close>, then set to \<open>[2, 3]\<close>.\<close>

theorem simpleState_cell_witness:
  "fst (fst (simpleState [1, 2, 3 :: nat] [])) (snd (simpleState [1, 2, 3] [])) = [1, 2, 3] \<and>
   fst (fst (simpleState [1, 2, 3 :: nat] []))
     (snd (fst (simpleState [1, 2, 3] [])) [2, 3] (snd (simpleState [1, 2, 3] []))) = [2, 3]"
proof -
  let ?c = "simpleState [1, 2, 3 :: nat] []"
  have "?c = ((fst (fst ?c), snd (fst ?c)), snd ?c)" by simp
  from simpleState_cell [OF this] show ?thesis by simp
qed

end
